theory Spec2Isabelle
  imports Main "HOL-Library.Sublist" "HOL-Library.Char_ord" "HOL-Library.List_Lexorder"
begin

section \<open>Python strings\<close>

text \<open>
  A Python \<^verbatim>\<open>str\<close> is modelled as a \<^typ>\<open>string\<close>, each \<^typ>\<open>char\<close> read as one code
  point in the range 0..255.  The character classes below are Python's for that range:
  \<^verbatim>\<open>str.isspace\<close> (which is also what \<^verbatim>\<open>\s\<close> of \<^verbatim>\<open>re\<close> and \<^verbatim>\<open>str.strip()\<close> test),
  the decimal digits matched by \<^verbatim>\<open>\d\<close>, and \<^verbatim>\<open>str.lower\<close>.
\<close>

definition isspace :: "char \<Rightarrow> bool" where
  "isspace c = (c \<in> set [CHR 0x09, CHR 0x0A, CHR 0x0B, CHR 0x0C, CHR 0x0D,
                          CHR 0x1C, CHR 0x1D, CHR 0x1E, CHR 0x1F, CHR 0x20,
                          CHR 0x85, CHR 0xA0])"

definition isdigit :: "char \<Rightarrow> bool" where
  "isdigit c = (c \<in> set ''0123456789'')"

definition lower_char :: "char \<Rightarrow> char" where
  "lower_char c =
     (let n = (of_char c :: nat)
      in if (65 \<le> n \<and> n \<le> 90) \<or> (192 \<le> n \<and> n \<le> 222 \<and> n \<noteq> 215)
         then char_of (n + 32) else c)"

definition lower :: "string \<Rightarrow> string" where
  "lower s = map lower_char s"

text \<open>\<^verbatim>\<open>s.strip()\<close>: leading and trailing whitespace removed.\<close>

definition strip :: "string \<Rightarrow> string" where
  "strip s = rev (dropWhile isspace (rev (dropWhile isspace s)))"

text \<open>\<^verbatim>\<open>sub in s\<close>: \<open>sub\<close> occurs in \<open>s\<close> as a contiguous substring.\<close>

fun str_contains :: "string \<Rightarrow> string \<Rightarrow> bool" where
  "str_contains sub [] = (sub = [])"
| "str_contains sub (c # cs) = (prefix sub (c # cs) \<or> str_contains sub cs)"



text \<open>
  \<^verbatim>\<open>s.split(sep)\<close> for a one-character separator: the list of the pieces between the
  separators, never empty.
\<close>

fun split_on :: "char \<Rightarrow> string \<Rightarrow> string list" where
  "split_on sep [] = [[]]"
| "split_on sep (c # cs) =
     (if c = sep then [] # split_on sep cs
      else (case split_on sep cs of
              p # ps \<Rightarrow> (c # p) # ps
            | [] \<Rightarrow> [[c]]))"

text \<open>
  \<^verbatim>\<open>s.replace(old, new)\<close> for a non-empty \<open>old\<close>: the non-overlapping occurrences of
  \<open>old\<close>, found from left to right, are each replaced by \<open>new\<close>.
\<close>

function str_replace :: "string \<Rightarrow> string \<Rightarrow> string \<Rightarrow> string" where
  "str_replace old new [] = []"
| "str_replace old new (c # cs) =
     (if old \<noteq> [] \<and> prefix old (c # cs)
      then new @ str_replace old new (drop (length old) (c # cs))
      else c # str_replace old new cs)"
  by pat_completeness auto
termination
  by (relation "measure (\<lambda>(old, new, s). length s)") auto

text \<open>
  \<^verbatim>\<open>int(ds)\<close> for a non-empty string of decimal digits: the value is unbounded, as
  Python's \<^verbatim>\<open>int\<close> is.  The interpreter's configurable limit on the number of digits of
  such a conversion is not modelled.
\<close>

definition digit_value :: "char \<Rightarrow> nat" where
  "digit_value c = of_char c - 48"

definition int_of_digits :: "string \<Rightarrow> nat" where
  "int_of_digits ds = foldl (\<lambda>acc d. 10 * acc + digit_value d) 0 ds"

section \<open>The two regular expressions\<close>

text \<open>
  \<^verbatim>\<open>\s*\([^)]*\)\<close> matched at the start of \<open>s\<close>.  Both stars are greedy and what
  follows each of them is a character its class excludes, so the only possible match
  takes the whole run of whitespace, the opening parenthesis, everything up to the
  first closing parenthesis, and that parenthesis.  The result is the text after the
  match.
\<close>

definition match_paren_tag :: "string \<Rightarrow> string option" where
  "match_paren_tag s =
     (case dropWhile isspace s of
        [] \<Rightarrow> None
      | c # u \<Rightarrow>
          if c = CHR ''(''
          then (case dropWhile (\<lambda>x. x \<noteq> CHR '')'') u of
                  [] \<Rightarrow> None
                | d # w \<Rightarrow> Some w)
          else None)"

lemma match_paren_tag_shorter:
  "match_paren_tag s = Some w \<Longrightarrow> length w < length s"
proof -
  assume m: "match_paren_tag s = Some w"
  then obtain u where u: "dropWhile isspace s = CHR ''('' # u"
    by (auto simp: match_paren_tag_def split: list.splits if_splits)
  with m obtain d where d: "dropWhile (\<lambda>x. x \<noteq> CHR '')'') u = d # w"
    by (auto simp: match_paren_tag_def split: list.splits)
  have "length (dropWhile (\<lambda>x. x \<noteq> CHR '')'') u) \<le> length u"
    by (rule length_dropWhile_le)
  with d have 1: "length w < length u" by simp
  have "length (dropWhile isspace s) \<le> length s"
    by (rule length_dropWhile_le)
  with u have "length u < length s" by simp
  with 1 show ?thesis by simp
qed

text \<open>
  \<^verbatim>\<open>re.sub(r'\s*\([^)]*\)', '', s)\<close>: the scan looks for a match at each position from
  the left; a match is dropped and the scan goes on after it, a position with no match
  keeps its character.  The pattern matches no empty string.
\<close>

function re_sub_paren_tags :: "string \<Rightarrow> string" where
  "re_sub_paren_tags [] = []"
| "re_sub_paren_tags (c # cs) =
     (case match_paren_tag (c # cs) of
        Some rest \<Rightarrow> re_sub_paren_tags rest
      | None \<Rightarrow> c # re_sub_paren_tags cs)"
  by pat_completeness auto
termination
  by (relation "measure length") (auto dest: match_paren_tag_shorter)

text \<open>
  \<^verbatim>\<open>\(rev (\d+)\)\<close> matched at the start of \<open>s\<close>; the result is \<^verbatim>\<open>int(group(1))\<close>.
  The digits are greedy and followed by a non-digit, so the group is the whole run of
  digits.
\<close>

definition match_rev_tag :: "string \<Rightarrow> nat option" where
  "match_rev_tag s =
     (if prefix ''(rev '' s
      then (let r = drop 5 s; ds = takeWhile isdigit r
            in if ds \<noteq> [] \<and> prefix '')'' (dropWhile isdigit r)
               then Some (int_of_digits ds) else None)
      else None)"

text \<open>\<^verbatim>\<open>re.search\<close>: the leftmost position with a match.\<close>

fun re_search_rev :: "string \<Rightarrow> nat option" where
  "re_search_rev [] = None"
| "re_search_rev (c # cs) =
     (case match_rev_tag (c # cs) of
        Some n \<Rightarrow> Some n
      | None \<Rightarrow> re_search_rev cs)"

section \<open>Canonical names\<close>

definition get_canonical_name :: "string \<Rightarrow> string" where
  "get_canonical_name filename =
     (let name = re_sub_paren_tags filename;
          name = strip (str_replace ''.zip'' '''' name)
      in name)"

section \<open>Selecting the best version\<close>

text \<open>The score the loop body of \<^verbatim>\<open>select_best_version\<close> gives one candidate.\<close>

definition version_score :: "string \<Rightarrow> int" where
  "version_score match =
     (let score = 100;
          filename = lower (last (split_on CHR ''/'' match));
          score = (if list_ex (\<lambda>tag. str_contains tag filename)
                        [''(beta'', ''(proto'', ''(sample)'']
                   then score - 50 else score);
          score = (case re_search_rev filename of
                     Some n \<Rightarrow> score + int n
                   | None \<Rightarrow> score)
      in score)"

text \<open>The loop, on the state \<open>(best_match, highest_score)\<close>.\<close>

fun select_loop :: "string list \<Rightarrow> string option \<times> int \<Rightarrow> string option \<times> int" where
  "select_loop [] st = st"
| "select_loop (match # rest) (best_match, highest_score) =
     (let score = version_score match
      in if score > highest_score
         then select_loop rest (Some match, score)
         else select_loop rest (best_match, highest_score))"

definition select_best_version :: "string list \<Rightarrow> string option" where
  "select_best_version matches =
     (if matches = [] then None
      else fst (select_loop matches (None, - 1)))"

section \<open>The canonical map\<close>

text \<open>
  The dictionary \<^verbatim>\<open>canonical_map\<close> is a list of (key, value) pairs in insertion order,
  the order in which Python's \<^verbatim>\<open>dict\<close> lists its keys.
\<close>

type_synonym canonical_map = "(string \<times> string list) list"

text \<open>The body of the loop of \<^verbatim>\<open>build_canonical_map\<close>, for one regional link.\<close>

definition add_link :: "canonical_map \<Rightarrow> string \<Rightarrow> canonical_map" where
  "add_link canonical_map link =
     (let filename = last (split_on CHR ''/'' link);
          canonical_name = get_canonical_name filename;
          canonical_map =
            (if canonical_name \<notin> set (map fst canonical_map)
             then canonical_map @ [(canonical_name, [])] else canonical_map)
      in map (\<lambda>(k, v). if k = canonical_name then (k, v @ [link]) else (k, v)) canonical_map)"

definition build_canonical_map :: "string list \<Rightarrow> string \<Rightarrow> canonical_map" where
  "build_canonical_map links region =
     (let region_str = ''('' @ region @ '')'';
          regional_links = filter (\<lambda>link. str_contains region_str link) links
      in foldl add_link [] regional_links)"

section \<open>Matching requested titles\<close>

datatype error = KeyError string | ValueError string

text \<open>
  Modelled from the spec: \<^verbatim>\<open>process.extractOne\<close> belongs to the library \<^verbatim>\<open>thefuzz\<close>, which
  is not part of the source.  The spec's title matcher computes a similarity score of
  the query against every choice and selects the maximum; the choice is a match if
  that maximum is at least the threshold, and there is no match otherwise.  The
  similarity function is the parameter \<open>scorer\<close>; among choices of equal score the
  first one is taken.
\<close>

fun best_choice :: "(string \<Rightarrow> string \<Rightarrow> int) \<Rightarrow> string \<Rightarrow> string list \<Rightarrow>
    (string \<times> int) option \<Rightarrow> (string \<times> int) option" where
  "best_choice scorer query [] best = best"
| "best_choice scorer query (c # cs) best =
     (let s = scorer query c
      in case best of
           None \<Rightarrow> best_choice scorer query cs (Some (c, s))
         | Some (b, t) \<Rightarrow>
             if s > t then best_choice scorer query cs (Some (c, s))
             else best_choice scorer query cs (Some (b, t)))"

definition extractOne :: "(string \<Rightarrow> string \<Rightarrow> int) \<Rightarrow> string \<Rightarrow> string list \<Rightarrow> int \<Rightarrow>
    (string \<times> int) option" where
  "extractOne scorer query choices score_cutoff =
     (case best_choice scorer query choices None of
        None \<Rightarrow> None
      | Some (c, s) \<Rightarrow> if s \<ge> score_cutoff then Some (c, s) else None)"

text \<open>
  The body of the loop of \<^verbatim>\<open>filter_links\<close> for one requested title: the link it appends
  to \<^verbatim>\<open>final_links\<close>, if any.  The subscript \<^verbatim>\<open>canonical_map[best_canonical_name]\<close>
  raises \<^verbatim>\<open>KeyError\<close> on a missing key, and \<^verbatim>\<open>if best_version:\<close> is false for \<^verbatim>\<open>None\<close> and
  for the empty string.
\<close>

definition match_game :: "(string \<Rightarrow> string \<Rightarrow> int) \<Rightarrow> canonical_map \<Rightarrow> string \<Rightarrow>
    error + string option" where
  "match_game scorer canonical_map game =
     (let canonical_names = map fst canonical_map
      in case extractOne scorer game canonical_names 85 of
           None \<Rightarrow> Inr None
         | Some (best_canonical_name, sc) \<Rightarrow>
             (case map_of canonical_map best_canonical_name of
                None \<Rightarrow> Inl (KeyError best_canonical_name)
              | Some all_versions \<Rightarrow>
                  (case select_best_version all_versions of
                     None \<Rightarrow> Inr None
                   | Some best_version \<Rightarrow>
                       if best_version \<noteq> [] then Inr (Some best_version) else Inr None)))"

text \<open>The loop over the requested titles, on the state \<open>(final_links, matched_games)\<close>.\<close>

fun filter_loop :: "(string \<Rightarrow> string \<Rightarrow> int) \<Rightarrow> canonical_map \<Rightarrow> string list \<Rightarrow>
    string list \<times> string set \<Rightarrow> error + string list \<times> string set" where
  "filter_loop scorer canonical_map [] st = Inr st"
| "filter_loop scorer canonical_map (game # games) (final_links, matched_games) =
     (case match_game scorer canonical_map game of
        Inl e \<Rightarrow> Inl e
      | Inr None \<Rightarrow> filter_loop scorer canonical_map games (final_links, matched_games)
      | Inr (Some best_version) \<Rightarrow>
          filter_loop scorer canonical_map games
            (final_links @ [best_version], insert game matched_games))"

text \<open>
  \<^verbatim>\<open>list(set(final_links))\<close> lists each element once, in an order that depends on the
  hashes of the strings and is not fixed by the program.  The listing is the parameter
  \<open>list_of_set\<close>, of which only \<open>set_listing\<close> is known.
\<close>

definition set_listing :: "(string list \<Rightarrow> string list) \<Rightarrow> bool" where
  "set_listing list_of_set =
     (\<forall>xs. distinct (list_of_set xs) \<and> set (list_of_set xs) = set xs)"

definition filter_links :: "(string \<Rightarrow> string \<Rightarrow> int) \<Rightarrow> (string list \<Rightarrow> string list) \<Rightarrow>
    string list \<Rightarrow> string list \<Rightarrow> string \<Rightarrow> error + string list \<times> string set" where
  "filter_links scorer list_of_set links games region =
     (let canonical_map = build_canonical_map links region
      in case filter_loop scorer canonical_map games ([], {}) of
           Inl e \<Rightarrow> Inl e
         | Inr (final_links, matched_games) \<Rightarrow> Inr (list_of_set final_links, matched_games))"

section \<open>The download command\<close>

text \<open>
  A run of the command is its trace, the list of what it does to the outside, and how
  it ends.  \<^verbatim>\<open>console.print\<close> is recorded with the string it is given.  The HTTP fetch,
  the reading of the games list and the extraction are collaborators: each is one
  event, and what the first two return is part of the environment of the run, like the
  exit status of the two \<^verbatim>\<open>which\<close> calls and of the downloader.  File-system calls are
  taken to succeed.
\<close>

datatype event =
    Print string
  | Mkdir string
  | Subprocess "string list"
  | GetLinks string
  | ReadGamesList string
  | WriteFile string "string list"
  | UnzipAndCleanup string

datatype outcome = Returned | SysExit nat | Raised error

datatype run_result = Completed | CalledProcessError string | FileNotFoundError

record args =
  games_list :: string
  url :: string
  output_dir :: string
  region :: string
  aria2c_input_file :: string
  no_unzip :: bool

record env =
  which_aria2c :: bool
  which_unzip :: bool
  get_links_result :: "string list"
  read_games_list_result :: "string list"
  aria2c_result :: run_result

text \<open>\<^verbatim>\<open>str(n)\<close> for a natural number, as the f-strings format \<^verbatim>\<open>len(...)\<close>.\<close>

function str_of_nat :: "nat \<Rightarrow> string" where
  "str_of_nat n =
     (if n < 10 then [char_of (48 + n)]
      else str_of_nat (n div 10) @ [char_of (48 + n mod 10)])"
  by pat_completeness auto
termination
  by (relation "measure id") auto

definition run_checks :: "env \<Rightarrow> event list \<times> outcome" where
  "run_checks e =
     (let ev = [Print ''Running pre-flight checks...'', Subprocess [''which'', ''aria2c'']]
      in if \<not> which_aria2c e
         then (ev @ [Print (''[bold red]Error:[/ ] aria2c is not installed or not in your PATH. '' @
                            ''Please install it to continue.'')], SysExit 1)
         else
           (let ev = ev @ [Print ''[green]aria2c found.[/green]'',
                           Subprocess [''which'', ''unzip'']]
            in if \<not> which_unzip e
               then (ev @ [Print (''[bold red]Error:[/ ] unzip is not installed or not in your PATH. '' @
                                  ''Please install it to continue.'')], SysExit 1)
               else (ev @ [Print ''[green]unzip found.[/green]''], Returned)))"

definition write_links_to_file :: "string list \<Rightarrow> string \<Rightarrow> event list" where
  "write_links_to_file links file_path =
     [Print (''Writing '' @ str_of_nat (length links) @ '' links to [bold cyan]'' @ file_path @
             ''[/bold cyan]...''),
      WriteFile file_path links]"

definition download_roms :: "env \<Rightarrow> string \<Rightarrow> string \<Rightarrow> event list" where
  "download_roms e input_file out_dir =
     (let command = [''aria2c'', ''-i'', input_file, ''-d'', out_dir,
                     ''--console-log-level=warn'', ''-x'', ''16'', ''-s'', ''16'', ''-k'', ''1M'']
      in [Print ''Starting download process with aria2c...'', Subprocess command] @
         (case aria2c_result e of
            Completed \<Rightarrow> [Print ''[bold green]Download complete![/bold green]'']
          | CalledProcessError msg \<Rightarrow> [Print (''[bold red]Error during download:[/ ] '' @ msg)]
          | FileNotFoundError \<Rightarrow>
              [Print (''[bold red]Error:[/ ] aria2c is not installed or not in your PATH. '' @
                      ''Please install it to continue.'')]))"

text \<open>
  Lines 463 to 467 of the source: the report of the titles that found no match.
  \<^verbatim>\<open>sorted\<close> compares strings lexicographically by code point, which is the order of
  \<^typ>\<open>string\<close> here.
\<close>

definition report_missing :: "string list \<Rightarrow> string set \<Rightarrow> event list" where
  "report_missing games matched_games =
     (let missing_games = set games - matched_games
      in if missing_games \<noteq> {}
         then Print (CHR 0x0A # ''[bold yellow]Could not find matches for the following games:[/bold yellow]'') #
              map (\<lambda>game. Print (''- '' @ game)) (sorted_list_of_set missing_games)
         else [])"

definition download_command :: "(string \<Rightarrow> string \<Rightarrow> int) \<Rightarrow> (string list \<Rightarrow> string list) \<Rightarrow>
    args \<Rightarrow> env \<Rightarrow> event list \<times> outcome" where
  "download_command scorer list_of_set a e =
     (let ev = [Mkdir (output_dir a)];
          (checks, res) = run_checks e;
          ev = ev @ checks
      in if res \<noteq> Returned then (ev, res)
         else
           (let ev = ev @ [Print ''[bold green]Starting ROM download process...[/bold green]'',
                           GetLinks (url a)];
                links = get_links_result e
            in if links = []
               then (ev @ [Print ''[bold red]No links found. Exiting.[/bold red]''], Returned)
               else
                 (let ev = ev @ [ReadGamesList (games_list a)];
                      games = read_games_list_result e
                  in if games = []
                     then (ev @ [Print ''[bold red]No games found in the list. Exiting.[/bold red]''],
                           Returned)
                     else
                       (case filter_links scorer list_of_set links games (region a) of
                          Inl err \<Rightarrow> (ev, Raised err)
                        | Inr (matched_links, matched_games) \<Rightarrow>
                            if matched_links = []
                            then (ev @ [Print (''[bold yellow]No matching ROMs found for the given '' @
                                               ''criteria.[/bold yellow]'')], Returned)
                            else
                              (ev @
                               [Print (''Found '' @ str_of_nat (length matched_links) @
                                       '' matching ROMs.'')] @
                               report_missing games matched_games @
                               write_links_to_file matched_links (aria2c_input_file a) @
                               download_roms e (aria2c_input_file a) (output_dir a) @
                               (if \<not> no_unzip a then [UnzipAndCleanup (output_dir a)] else []),
                               Returned)))))"

text \<open>The external downloader is invoked where a trace runs \<^verbatim>\<open>aria2c\<close> as a subprocess.\<close>

fun is_downloader_call :: "event \<Rightarrow> bool" where
  "is_downloader_call (Subprocess command) = (take 1 command = [''aria2c''])"
| "is_downloader_call _ = False"

section \<open>The rename command\<close>







section \<open>Notions of the specification\<close>

text \<open>
  The specification's revision tag: the text \<^verbatim>\<open>(rev N)\<close>, with \<open>N\<close> a non-empty run of
  decimal digits of value \<open>n\<close>, stands in \<open>s\<close> at position \<open>k\<close>; and the first such tag
  of \<open>s\<close> has the number \<open>n\<close>.
\<close>

definition rev_tag_at :: "string \<Rightarrow> nat \<Rightarrow> nat \<Rightarrow> bool" where
  "rev_tag_at s k n =
     (\<exists>ds post. drop k s = ''(rev '' @ ds @ '')'' @ post \<and> ds \<noteq> [] \<and>
        list_all isdigit ds \<and> n = int_of_digits ds)"

definition first_rev_tag :: "string \<Rightarrow> nat \<Rightarrow> bool" where
  "first_rev_tag s n = (\<exists>k. rev_tag_at s k n \<and> (\<forall>k'<k. \<forall>n'. \<not> rev_tag_at s k' n'))"

text \<open>The links stored in a canonical map, under any of its keys.\<close>

definition map_links :: "canonical_map \<Rightarrow> string set" where
  "map_links cm = (\<Union>(k, vs)\<in>set cm. set vs)"

text \<open>
  The titles a trace lists as unmatched: the lines \<^verbatim>\<open>- title\<close> it prints, in the order
  in which they are printed.
\<close>

fun listed_title :: "event \<Rightarrow> string option" where
  "listed_title (Print s) = (if prefix ''- '' s then Some (drop 2 s) else None)"
| "listed_title _ = None"

definition reported_unmatched :: "event list \<Rightarrow> string list" where
  "reported_unmatched trace = List.map_filter listed_title trace"

text \<open>
  A similarity function for the concrete runs below: equal titles score 100, titles
  with the same first character 90, all others 0.
\<close>

definition example_scorer :: "string \<Rightarrow> string \<Rightarrow> int" where
  "example_scorer query choice =
     (if query = choice then 100 else if take 1 query = take 1 choice then 90 else 0)"

definition example_args :: args where
  "example_args =
     \<lparr>games_list = ''games.txt'', url = ''http://x/'', output_dir = ''downloads'',
      region = ''USA'', aria2c_input_file = ''aria2c-input.txt'', no_unzip = False\<rparr>"

definition example_env :: "string list \<Rightarrow> string list \<Rightarrow> env" where
  "example_env links games =
     \<lparr>which_aria2c = True, which_unzip = True, get_links_result = links,
      read_games_list_result = games, aria2c_result = Completed\<rparr>"

text \<open>The events of \<^verbatim>\<open>run_checks\<close> when both tools are found.\<close>

definition checks_passed :: "event list" where
  "checks_passed =
     [Print ''Running pre-flight checks...'', Subprocess [''which'', ''aria2c''],
      Print ''[green]aria2c found.[/green]'', Subprocess [''which'', ''unzip''],
      Print ''[green]unzip found.[/green]'']"

section \<open>Substrings and the revision pattern\<close>

lemma str_contains_sublist: "str_contains sub s = sublist sub s"
  by (induction s) (auto simp: sublist_Cons_right)

lemma not_isdigit_paren: "\<not> isdigit CHR '')''"
  by (simp add: isdigit_def)

lemma match_rev_tag_iff: "match_rev_tag s = Some n \<longleftrightarrow> rev_tag_at s 0 n"
proof
  assume m: "match_rev_tag s = Some n"
  then obtain r where r: "s = ''(rev '' @ r"
    by (auto simp: match_rev_tag_def prefix_def split: if_splits)
  from m r have ds: "takeWhile isdigit r \<noteq> []" and n: "n = int_of_digits (takeWhile isdigit r)"
    and p: "prefix '')'' (dropWhile isdigit r)"
    by (auto simp: match_rev_tag_def Let_def split: if_splits)
  from p obtain post where post: "dropWhile isdigit r = '')'' @ post"
    by (auto simp: prefix_def)
  have "r = takeWhile isdigit r @ dropWhile isdigit r" by simp
  with post have "r = takeWhile isdigit r @ '')'' @ post" by simp
  with r have "drop 0 s = ''(rev '' @ takeWhile isdigit r @ '')'' @ post" by simp
  moreover have "list_all isdigit (takeWhile isdigit r)"
    by (simp add: list_all_iff) (meson set_takeWhileD)
  ultimately show "rev_tag_at s 0 n" using ds n unfolding rev_tag_at_def by blast
next
  assume "rev_tag_at s 0 n"
  then obtain ds post where s: "s = ''(rev '' @ ds @ '')'' @ post" and ne: "ds \<noteq> []"
    and dg: "list_all isdigit ds" and n: "n = int_of_digits ds"
    by (auto simp: rev_tag_at_def)
  from dg have t: "takeWhile isdigit (ds @ CHR '')'' # post) = ds"
    by (simp add: list_all_iff not_isdigit_paren)
  from dg have d: "dropWhile isdigit (ds @ CHR '')'' # post) = CHR '')'' # post"
    by (simp add: list_all_iff not_isdigit_paren)
  have pre: "prefix ''(rev '' s" unfolding s by simp
  have dr: "drop 5 s = ds @ CHR '')'' # post" unfolding s by simp
  show "match_rev_tag s = Some n"
    unfolding match_rev_tag_def using pre ne n by (simp add: dr t d Let_def)
qed

lemma rev_tag_at_Nil: "\<not> rev_tag_at [] k n"
  by (simp add: rev_tag_at_def)

lemma rev_tag_at_Suc: "rev_tag_at (c # cs) (Suc k) n = rev_tag_at cs k n"
  by (simp add: rev_tag_at_def)

lemma first_rev_tag_Cons_no_match:
  assumes no0: "\<And>n'. \<not> rev_tag_at (c # cs) 0 n'"
  shows "first_rev_tag (c # cs) n = first_rev_tag cs n"
proof
  assume "first_rev_tag (c # cs) n"
  then obtain k where k: "rev_tag_at (c # cs) k n"
    and least: "\<forall>k'<k. \<forall>n'. \<not> rev_tag_at (c # cs) k' n'"
    unfolding first_rev_tag_def by blast
  from k no0 obtain k0 where k0: "k = Suc k0" by (cases k) auto
  from k k0 have "rev_tag_at cs k0 n" by (simp add: rev_tag_at_Suc)
  moreover have "\<forall>k'<k0. \<forall>n'. \<not> rev_tag_at cs k' n'"
  proof (intro allI impI)
    fix k' n' assume "k' < k0"
    then have "Suc k' < k" using k0 by simp
    with least have "\<not> rev_tag_at (c # cs) (Suc k') n'" by blast
    then show "\<not> rev_tag_at cs k' n'" by (simp add: rev_tag_at_Suc)
  qed
  ultimately show "first_rev_tag cs n" unfolding first_rev_tag_def by blast
next
  assume "first_rev_tag cs n"
  then obtain k where k: "rev_tag_at cs k n"
    and least: "\<forall>k'<k. \<forall>n'. \<not> rev_tag_at cs k' n'"
    unfolding first_rev_tag_def by blast
  have "rev_tag_at (c # cs) (Suc k) n" using k by (simp add: rev_tag_at_Suc)
  moreover have "\<forall>k'<Suc k. \<forall>n'. \<not> rev_tag_at (c # cs) k' n'"
  proof (intro allI impI)
    fix k' n' assume lt: "k' < Suc k"
    show "\<not> rev_tag_at (c # cs) k' n'"
    proof (cases k')
      case 0
      then show ?thesis using no0 by simp
    next
      case (Suc j)
      with lt least show ?thesis by (simp add: rev_tag_at_Suc)
    qed
  qed
  ultimately show "first_rev_tag (c # cs) n" unfolding first_rev_tag_def by blast
qed

lemma re_search_rev_Some_iff: "re_search_rev s = Some n \<longleftrightarrow> first_rev_tag s n"
proof (induction s)
  case Nil
  show ?case by (simp add: first_rev_tag_def rev_tag_at_Nil)
next
  case (Cons c cs)
  show ?case
  proof (cases "match_rev_tag (c # cs)")
    case (Some v)
    then have at0: "rev_tag_at (c # cs) 0 v" by (simp add: match_rev_tag_iff)
    have uniq: "rev_tag_at (c # cs) 0 n \<Longrightarrow> n = v" for n
      using Some match_rev_tag_iff [of "c # cs" n] by simp
    show ?thesis
    proof
      assume "re_search_rev (c # cs) = Some n"
      with Some have "n = v" by simp
      with at0 show "first_rev_tag (c # cs) n"
        unfolding first_rev_tag_def by (intro exI [of _ 0]) simp
    next
      assume "first_rev_tag (c # cs) n"
      then obtain k where k: "rev_tag_at (c # cs) k n"
        and least: "\<forall>k'<k. \<forall>n'. \<not> rev_tag_at (c # cs) k' n'"
        unfolding first_rev_tag_def by blast
      from least at0 have "k = 0" by (cases k) auto
      with k uniq have "n = v" by simp
      with Some show "re_search_rev (c # cs) = Some n" by simp
    qed
  next
    case None
    then have no0: "\<not> rev_tag_at (c # cs) 0 n'" for n'
      using match_rev_tag_iff [of "c # cs" n'] by simp
    from None Cons.IH first_rev_tag_Cons_no_match [of c cs n, OF no0]
    show ?thesis by simp
  qed
qed


lemma first_rev_tag_unique: "first_rev_tag s n \<Longrightarrow> first_rev_tag s n' \<Longrightarrow> n = n'"
  by (simp add: re_search_rev_Some_iff [symmetric])

lemma rev_tag_at_first: "rev_tag_at s k n \<Longrightarrow> \<exists>m. first_rev_tag s m"
proof -
  assume at: "rev_tag_at s k n"
  define k0 where "k0 = (LEAST j. \<exists>m. rev_tag_at s j m)"
  have "\<exists>m. rev_tag_at s k0 m" unfolding k0_def
    by (rule LeastI [of "\<lambda>j. \<exists>m. rev_tag_at s j m" k]) (use at in blast)
  moreover have "\<forall>k'<k0. \<forall>n'. \<not> rev_tag_at s k' n'"
    unfolding k0_def using not_less_Least by blast
  ultimately show ?thesis unfolding first_rev_tag_def by blast
qed

section \<open>The selection loop\<close>

lemma version_score_ge_50: "50 \<le> version_score m"
  by (simp add: version_score_def Let_def split: option.split)

lemma select_loop_keep_or_pick:
  "(select_loop ms (b, h) = (b, h) \<and> (\<forall>j<length ms. version_score (ms ! j) \<le> h)) \<or>
   (\<exists>i<length ms. select_loop ms (b, h) = (Some (ms ! i), version_score (ms ! i)) \<and>
      h < version_score (ms ! i) \<and>
      (\<forall>j<length ms. version_score (ms ! j) \<le> version_score (ms ! i)) \<and>
      (\<forall>j<i. version_score (ms ! j) < version_score (ms ! i)))"
proof (induction ms arbitrary: b h)
  case Nil
  show ?case by simp
next
  case (Cons m ms)
  show ?case
  proof (cases "version_score m > h")
    case True
    from Cons.IH [of "Some m" "version_score m"]
    show ?thesis
    proof
      assume keep: "select_loop ms (Some m, version_score m) = (Some m, version_score m) \<and>
        (\<forall>j<length ms. version_score (ms ! j) \<le> version_score m)"
      have "\<forall>j<length (m # ms). version_score ((m # ms) ! j) \<le> version_score ((m # ms) ! 0)"
        using keep by (auto simp: nth_Cons split: nat.split)
      with keep True show ?thesis
        by (intro disjI2 exI [of _ 0]) (simp add: Let_def)
    next
      assume "\<exists>i<length ms.
        select_loop ms (Some m, version_score m) = (Some (ms ! i), version_score (ms ! i)) \<and>
        version_score m < version_score (ms ! i) \<and>
        (\<forall>j<length ms. version_score (ms ! j) \<le> version_score (ms ! i)) \<and>
        (\<forall>j<i. version_score (ms ! j) < version_score (ms ! i))"
      then obtain i where i: "i < length ms"
        and sel: "select_loop ms (Some m, version_score m) = (Some (ms ! i), version_score (ms ! i))"
        and gt: "version_score m < version_score (ms ! i)"
        and mx: "\<forall>j<length ms. version_score (ms ! j) \<le> version_score (ms ! i)"
        and before: "\<forall>j<i. version_score (ms ! j) < version_score (ms ! i)"
        by blast
      have a: "\<forall>j<length (m # ms). version_score ((m # ms) ! j) \<le> version_score ((m # ms) ! Suc i)"
        using mx gt by (auto simp: nth_Cons split: nat.split)
      have b: "\<forall>j<Suc i. version_score ((m # ms) ! j) < version_score ((m # ms) ! Suc i)"
        using before gt by (auto simp: nth_Cons split: nat.split)
      from i sel gt True a b show ?thesis
        by (intro disjI2 exI [of _ "Suc i"]) (simp add: Let_def)
    qed
  next
    case False
    from Cons.IH [of b h]
    show ?thesis
    proof
      assume keep: "select_loop ms (b, h) = (b, h) \<and> (\<forall>j<length ms. version_score (ms ! j) \<le> h)"
      have "\<forall>j<length (m # ms). version_score ((m # ms) ! j) \<le> h"
        using keep False by (auto simp: nth_Cons split: nat.split)
      with keep False show ?thesis by (intro disjI1) (simp add: Let_def)
    next
      assume "\<exists>i<length ms. select_loop ms (b, h) = (Some (ms ! i), version_score (ms ! i)) \<and>
        h < version_score (ms ! i) \<and>
        (\<forall>j<length ms. version_score (ms ! j) \<le> version_score (ms ! i)) \<and>
        (\<forall>j<i. version_score (ms ! j) < version_score (ms ! i))"
      then obtain i where i: "i < length ms"
        and sel: "select_loop ms (b, h) = (Some (ms ! i), version_score (ms ! i))"
        and gt: "h < version_score (ms ! i)"
        and mx: "\<forall>j<length ms. version_score (ms ! j) \<le> version_score (ms ! i)"
        and before: "\<forall>j<i. version_score (ms ! j) < version_score (ms ! i)"
        by blast
      have a: "\<forall>j<length (m # ms). version_score ((m # ms) ! j) \<le> version_score ((m # ms) ! Suc i)"
        using mx gt False by (auto simp: nth_Cons split: nat.split)
      have b: "\<forall>j<Suc i. version_score ((m # ms) ! j) < version_score ((m # ms) ! Suc i)"
        using before gt False by (auto simp: nth_Cons split: nat.split)
      from i sel gt False a b show ?thesis
        by (intro disjI2 exI [of _ "Suc i"]) (simp add: Let_def)
    qed
  qed
qed

lemma select_best_version_first_max:
  assumes "ms \<noteq> []"
  shows "\<exists>i<length ms. select_best_version ms = Some (ms ! i) \<and>
      (\<forall>j<length ms. version_score (ms ! j) \<le> version_score (ms ! i)) \<and>
      (\<forall>j<i. version_score (ms ! j) < version_score (ms ! i))"
proof -
  from select_loop_keep_or_pick [of ms None "- 1"]
  show ?thesis
  proof
    assume "select_loop ms (None, - 1) = (None, - 1) \<and>
      (\<forall>j<length ms. version_score (ms ! j) \<le> - 1)"
    then have "version_score (ms ! 0) \<le> - 1" using assms by simp
    with version_score_ge_50 [of "ms ! 0"] show ?thesis by simp
  next
    assume "\<exists>i<length ms. select_loop ms (None, - 1) = (Some (ms ! i), version_score (ms ! i)) \<and>
      - 1 < version_score (ms ! i) \<and>
      (\<forall>j<length ms. version_score (ms ! j) \<le> version_score (ms ! i)) \<and>
      (\<forall>j<i. version_score (ms ! j) < version_score (ms ! i))"
    then show ?thesis using assms by (auto simp: select_best_version_def)
  qed
qed

lemma select_best_version_in_set:
  "ms \<noteq> [] \<Longrightarrow> \<exists>m\<in>set ms. select_best_version ms = Some m"
  using select_best_version_first_max [of ms] by (metis nth_mem)


section \<open>Claims about the variant selector\<close>







section \<open>Removing tags, removing \<^verbatim>\<open>.zip\<close>, stripping\<close>

lemma not_isspace_paren: "\<not> isspace CHR ''(''"
  by (simp add: isspace_def)

lemma match_paren_tag_SomeD:
  assumes "match_paren_tag s = Some w"
  shows "\<exists>u. dropWhile isspace s = CHR ''('' # u \<and>
             dropWhile (\<lambda>x. x \<noteq> CHR '')'') u = CHR '')'' # w"
proof -
  from assms obtain u where u: "dropWhile isspace s = CHR ''('' # u"
    by (auto simp: match_paren_tag_def split: list.splits if_splits)
  with assms obtain d where d: "dropWhile (\<lambda>x. x \<noteq> CHR '')'') u = d # w"
    by (auto simp: match_paren_tag_def split: list.splits)
  from d have "\<not> (hd (dropWhile (\<lambda>x. x \<noteq> CHR '')'') u) \<noteq> CHR '')'')"
    using hd_dropWhile [of "\<lambda>x. x \<noteq> CHR '')''" u] by auto
  with d have "d = CHR '')''" by simp
  with u d show ?thesis by simp
qed

lemma match_paren_tag_subseq:
  assumes "match_paren_tag s = Some w"
  shows "subseq ''()'' s"
proof -
  from match_paren_tag_SomeD [OF assms] obtain u where u: "dropWhile isspace s = CHR ''('' # u"
    and d: "dropWhile (\<lambda>x. x \<noteq> CHR '')'') u = CHR '')'' # w" by blast
  have "CHR '')'' \<in> set (dropWhile (\<lambda>x. x \<noteq> CHR '')'') u)" by (simp add: d)
  then have "CHR '')'' \<in> set u" by (rule set_dropWhileD)
  then have "subseq ''()'' (CHR ''('' # u)" by (simp add: subseq_singleton_left)
  then have "subseq ''()'' (takeWhile isspace s @ dropWhile isspace s)"
    unfolding u by (rule list_emb_append2)
  then show ?thesis by simp
qed

lemma match_paren_tag_open:
  assumes "CHR '')'' \<in> set cs"
  shows "match_paren_tag (CHR ''('' # cs) \<noteq> None"
proof -
  have "dropWhile (\<lambda>x. x \<noteq> CHR '')'') cs \<noteq> []" using assms by (simp add: dropWhile_eq_Nil_conv)
  then show ?thesis
    by (auto simp: match_paren_tag_def not_isspace_paren split: list.splits)
qed

lemma set_re_sub_paren_tags: "set (re_sub_paren_tags s) \<subseteq> set s"
proof (induction s rule: re_sub_paren_tags.induct)
  case 1
  show ?case by simp
next
  case (2 c cs)
  show ?case
  proof (cases "match_paren_tag (c # cs)")
    case None
    with 2 show ?thesis by auto
  next
    case (Some rest)
    from match_paren_tag_SomeD [OF Some] obtain u where u: "dropWhile isspace (c # cs) = CHR ''('' # u"
      and d: "dropWhile (\<lambda>x. x \<noteq> CHR '')'') u = CHR '')'' # rest" by blast
    have "set rest \<subseteq> set (dropWhile (\<lambda>x. x \<noteq> CHR '')'') u)" by (auto simp: d)
    also have "\<dots> \<subseteq> set u" by (auto dest: set_dropWhileD)
    also have "\<dots> \<subseteq> set (dropWhile isspace (c # cs))" unfolding u by auto
    also have "\<dots> \<subseteq> set (c # cs)" by (auto dest: set_dropWhileD)
    finally have "set rest \<subseteq> set (c # cs)" .
    with 2(2) [OF Some] Some show ?thesis by auto
  qed
qed

lemma re_sub_paren_tags_no_group: "\<not> subseq ''()'' (re_sub_paren_tags s)"
proof (induction s rule: re_sub_paren_tags.induct)
  case 1
  show ?case by simp
next
  case (2 c cs)
  show ?case
  proof (cases "match_paren_tag (c # cs)")
    case (Some rest)
    with 2(2) show ?thesis by simp
  next
    case None
    have ih: "\<not> subseq ''()'' (re_sub_paren_tags cs)" using 2(1) None by simp
    have "\<not> subseq ''()'' (c # re_sub_paren_tags cs)"
    proof
      assume emb: "subseq ''()'' (c # re_sub_paren_tags cs)"
      show False
      proof (cases "c = CHR ''(''")
        case True
        with emb have "CHR '')'' \<in> set (re_sub_paren_tags cs)"
          by (simp add: subseq_singleton_left)
        with set_re_sub_paren_tags have "CHR '')'' \<in> set cs" by blast
        from match_paren_tag_open [OF this] None True show False by simp
      next
        case False
        with emb have "subseq ''()'' (re_sub_paren_tags cs)" by simp
        with ih show False by simp
      qed
    qed
    with None show ?thesis by simp
  qed
qed

lemma re_sub_paren_tags_id:
  "\<not> subseq ''()'' s \<Longrightarrow> re_sub_paren_tags s = s"
proof (induction s)
  case Nil
  show ?case by simp
next
  case (Cons c cs)
  have "match_paren_tag (c # cs) = None"
  proof (cases "match_paren_tag (c # cs)")
    case (Some w)
    from match_paren_tag_subseq [OF this] Cons.prems show ?thesis by simp
  qed simp
  moreover have "\<not> subseq ''()'' cs"
  proof
    assume "subseq ''()'' cs"
    then have "subseq ''()'' (c # cs)" by (rule list_emb_Cons)
    with Cons.prems show False by blast
  qed
  ultimately show ?case using Cons.IH by simp
qed


lemma subseq_dropWhile: "subseq (dropWhile P xs) xs"
proof -
  have "subseq (dropWhile P xs) (takeWhile P xs @ dropWhile P xs)"
    by (rule list_emb_append2) simp
  then show ?thesis by simp
qed

lemma subseq_strip: "subseq (strip s) s"
proof -
  define t where "t = dropWhile isspace s"
  define u where "u = dropWhile isspace (rev t)"
  have "rev t = takeWhile isspace (rev t) @ u" by (simp add: u_def)
  then have "rev (rev t) = rev (takeWhile isspace (rev t) @ u)" by (rule arg_cong)
  then have t: "t = rev u @ rev (takeWhile isspace (rev t))" by simp
  have "subseq (rev u) (rev u @ rev (takeWhile isspace (rev t)))"
    by (rule subseq_rev_drop_many) simp
  with t have "subseq (rev u) t" by simp
  also have "subseq t s" unfolding t_def by (rule subseq_dropWhile)
  finally show ?thesis by (simp add: strip_def t_def u_def)
qed

lemma subseq_str_replace: "subseq (str_replace old [] s) s"
proof (induction old "[] :: string" s rule: str_replace.induct)
  case (1 old)
  show ?case by simp
next
  case (2 old c cs)
  show ?case
  proof (cases "old \<noteq> [] \<and> prefix old (c # cs)")
    case True
    with 2(1) have "subseq (str_replace old [] (drop (length old) (c # cs))) (drop (length old) (c # cs))"
      by simp
    then have "subseq (str_replace old [] (drop (length old) (c # cs)))
        (take (length old) (c # cs) @ drop (length old) (c # cs))"
      by (rule list_emb_append2)
    then have "subseq (str_replace old [] (drop (length old) (c # cs))) (c # cs)"
      by (simp only: append_take_drop_id)
    with True show ?thesis by simp
  next
    case False
    with 2(2) show ?thesis by auto
  qed
qed

lemma str_replace_id: "\<not> sublist old s \<Longrightarrow> str_replace old new s = s"
proof (induction s)
  case Nil
  show ?case by simp
next
  case (Cons c cs)
  from Cons.prems have np: "\<not> prefix old (c # cs)" and ns: "\<not> sublist old cs"
    by (auto simp: sublist_Cons_right)
  with Cons.IH show ?case by simp
qed

lemma length_str_replace_le: "length (str_replace old [] s) \<le> length s"
  using subseq_str_replace [of old s] by (rule list_emb_length)

lemma length_str_replace_less:
  "old \<noteq> [] \<Longrightarrow> sublist old s \<Longrightarrow> length (str_replace old [] s) < length s"
proof (induction s)
  case Nil
  then show ?case by simp
next
  case (Cons c cs)
  show ?case
  proof (cases "prefix old (c # cs)")
    case True
    have "length (str_replace old [] (drop (length old) (c # cs))) \<le> length (drop (length old) (c # cs))"
      by (rule length_str_replace_le)
    also have "\<dots> < length (c # cs)" using Cons.prems(1) by simp
    finally show ?thesis using True Cons.prems(1) by simp
  next
    case False
    with Cons.prems have "sublist old cs" by (auto simp: sublist_Cons_right)
    with Cons.IH Cons.prems(1) False show ?thesis by simp
  qed
qed

lemma strip_fixed: "s = [] \<or> (\<not> isspace (hd s) \<and> \<not> isspace (last s)) \<Longrightarrow> strip s = s"
proof (cases "s = []")
  case True
  then show ?thesis by (simp add: strip_def)
next
  case False
  assume "s = [] \<or> (\<not> isspace (hd s) \<and> \<not> isspace (last s))"
  with False have h: "\<not> isspace (hd s)" and l: "\<not> isspace (last s)" by auto
  from h have 1: "dropWhile isspace s = s" by (simp add: dropWhile_eq_self_iff)
  from l False have "\<not> isspace (hd (rev s))" by (simp add: hd_rev)
  then have 2: "dropWhile isspace (rev s) = rev s" by (simp add: dropWhile_eq_self_iff)
  show ?thesis by (simp add: strip_def 1 2)
qed

lemma strip_stripped:
  "strip s = [] \<or> (\<not> isspace (hd (strip s)) \<and> \<not> isspace (last (strip s)))"
proof (cases "strip s = []")
  case True
  then show ?thesis by simp
next
  case False
  define t where "t = dropWhile isspace s"
  define u where "u = dropWhile isspace (rev t)"
  have su: "strip s = rev u" by (simp add: strip_def t_def u_def)
  with False have une: "u \<noteq> []" by simp
  have hu: "\<not> isspace (hd u)" using une hd_dropWhile [of isspace "rev t"] by (simp add: u_def)
  have "rev t = takeWhile isspace (rev t) @ u" by (simp add: u_def)
  then have "last (rev t) = last u" using une by (metis last_appendR)
  moreover have tne: "t \<noteq> []" using une by (auto simp: u_def)
  ultimately have "last u = hd t" by (simp add: last_rev)
  moreover have "\<not> isspace (hd t)" using tne hd_dropWhile [of isspace s] by (simp add: t_def)
  ultimately have lu: "\<not> isspace (last u)" by simp
  from hu lu une show ?thesis by (simp add: su hd_rev last_rev)
qed

lemma strip_idem: "strip (strip s) = strip s"
  by (rule strip_fixed) (rule strip_stripped)

lemma length_strip_le: "length (strip s) \<le> length s"
  using subseq_strip [of s] by (rule list_emb_length)

lemma get_canonical_name_no_group: "\<not> subseq ''()'' (get_canonical_name f)"
proof
  assume "subseq ''()'' (get_canonical_name f)"
  then have "subseq ''()'' (strip (str_replace ''.zip'' [] (re_sub_paren_tags f)))"
    by (simp add: get_canonical_name_def)
  also have "subseq \<dots> (str_replace ''.zip'' [] (re_sub_paren_tags f))" by (rule subseq_strip)
  also have "subseq \<dots> (re_sub_paren_tags f)" by (rule subseq_str_replace)
  finally show False using re_sub_paren_tags_no_group by blast
qed

lemma get_canonical_name_fixed_iff:
  "get_canonical_name (get_canonical_name f) = get_canonical_name f \<longleftrightarrow>
   \<not> sublist ''.zip'' (get_canonical_name f)"
proof -
  define r where "r = get_canonical_name f"
  have r: "r = strip (str_replace ''.zip'' [] (re_sub_paren_tags f))"
    by (simp add: r_def get_canonical_name_def)
  have "re_sub_paren_tags r = r"
    unfolding r_def by (rule re_sub_paren_tags_id) (rule get_canonical_name_no_group)
  then have gr: "get_canonical_name r = strip (str_replace ''.zip'' [] r)"
    by (simp add: get_canonical_name_def)
  have sr: "strip r = r" unfolding r by (rule strip_idem)
  show ?thesis unfolding r_def [symmetric]
  proof
    assume eq: "get_canonical_name r = r"
    show "\<not> sublist ''.zip'' r"
    proof
      assume "sublist ''.zip'' r"
      then have "length (str_replace ''.zip'' [] r) < length r"
        by (intro length_str_replace_less) simp_all
      moreover have "length (strip (str_replace ''.zip'' [] r)) \<le> length (str_replace ''.zip'' [] r)"
        by (rule length_strip_le)
      ultimately have "length (get_canonical_name r) < length r" by (simp add: gr)
      with eq show False by simp
    qed
  next
    assume "\<not> sublist ''.zip'' r"
    then have "str_replace ''.zip'' [] r = r" by (rule str_replace_id)
    with gr sr show "get_canonical_name r = r" by simp
  qed
qed

section \<open>Claims about the canonical name\<close>

text \<open>
  C3, as the code has it.  \<^verbatim>\<open>get_canonical_name\<close> is not idempotent on every filename:
  deleting an occurrence of \<^verbatim>\<open>.zip\<close> can bring the pieces of another one together, which
  only a second application deletes.
\<close>

theorem get_canonical_name_not_idempotent:
  "get_canonical_name (get_canonical_name ''A.z.zipip.zip'') \<noteq>
   get_canonical_name ''A.z.zipip.zip''"
  by code_simp

text \<open>
  C3, amended.  Applying \<^verbatim>\<open>get_canonical_name\<close> a second time changes nothing whenever the
  canonical name it produced contains no \<^verbatim>\<open>.zip\<close>.
\<close>

theorem get_canonical_name_idempotent:
  assumes "\<not> sublist ''.zip'' (get_canonical_name f)"
  shows "get_canonical_name (get_canonical_name f) = get_canonical_name f"
  using assms by (simp add: get_canonical_name_fixed_iff)

theorem get_canonical_name_idempotent_witness:
  "\<not> sublist ''.zip'' (get_canonical_name ''Game (USA) (Rev 2).zip'') \<and>
   get_canonical_name (get_canonical_name ''Game (USA) (Rev 2).zip'') =
   get_canonical_name ''Game (USA) (Rev 2).zip''"
proof -
  have g: "get_canonical_name ''Game (USA) (Rev 2).zip'' = ''Game''" by code_simp
  have n: "\<not> sublist ''.zip'' (get_canonical_name ''Game (USA) (Rev 2).zip'')"
    unfolding g by (simp add: sublist_Cons_right)
  from n get_canonical_name_idempotent [OF n] show ?thesis by simp
qed

text \<open>
  C4, at the input where the code leaves the claim.  Every occurrence of \<^verbatim>\<open>.zip\<close> is
  deleted, not only the trailing extension: \<^verbatim>\<open>My.zipper (USA).zip\<close> becomes \<^verbatim>\<open>Myper\<close>, where
  removing the tag, the trailing extension and the surrounding whitespace gives
  \<^verbatim>\<open>My.zipper\<close>.  The example of the specification comes out as stated.
\<close>

theorem get_canonical_name_deletes_inner_zip:
  "get_canonical_name ''My.zipper (USA).zip'' = ''Myper'' \<and>
   get_canonical_name ''Game (USA) (Rev 2).zip'' = ''Game''"
  by code_simp

section \<open>The canonical map and the matching loop\<close>

lemma map_links_Nil: "map_links [] = {}"
  by (simp add: map_links_def)

lemma map_links_append: "map_links (xs @ ys) = map_links xs \<union> map_links ys"
  by (auto simp: map_links_def)

lemma map_links_append_to_key:
  "map_links (map (\<lambda>(k, v). if k = n then (k, v @ [link]) else (k, v)) cm) =
   map_links cm \<union> (if n \<in> set (map fst cm) then {link} else {})"
proof (induction cm)
  case Nil
  show ?case by (simp add: map_links_def)
next
  case (Cons p cm)
  obtain k v where p: "p = (k, v)" by (cases p)
  have "map_links (map (\<lambda>(k, v). if k = n then (k, v @ [link]) else (k, v)) (p # cm)) =
        (if k = n then set v \<union> {link} else set v) \<union>
        map_links (map (\<lambda>(k, v). if k = n then (k, v @ [link]) else (k, v)) cm)"
    by (simp add: map_links_def p)
  also have "\<dots> = (if k = n then set v \<union> {link} else set v) \<union>
        (map_links cm \<union> (if n \<in> set (map fst cm) then {link} else {}))"
    by (simp only: Cons.IH)
  also have "\<dots> = map_links (p # cm) \<union> (if n \<in> set (map fst (p # cm)) then {link} else {})"
    by (auto simp: map_links_def p)
  finally show ?case .
qed

lemma map_links_add_link: "map_links (add_link cm link) = insert link (map_links cm)"
proof -
  define n where "n = get_canonical_name (last (split_on CHR ''/'' link))"
  show ?thesis
  proof (cases "n \<in> set (map fst cm)")
    case True
    then have "add_link cm link = map (\<lambda>(k, v). if k = n then (k, v @ [link]) else (k, v)) cm"
      by (simp add: add_link_def Let_def n_def)
    with True show ?thesis by (simp add: map_links_append_to_key)
  next
    case False
    then have "add_link cm link =
        map (\<lambda>(k, v). if k = n then (k, v @ [link]) else (k, v)) (cm @ [(n, [])])"
      by (simp add: add_link_def Let_def n_def)
    then have "map_links (add_link cm link) =
        map_links (cm @ [(n, [])]) \<union> (if n \<in> set (map fst (cm @ [(n, [])])) then {link} else {})"
      by (simp only: map_links_append_to_key)
    also have "\<dots> = insert link (map_links cm)"
      by (simp add: map_links_append) (simp add: map_links_def)
    finally show ?thesis .
  qed
qed

lemma map_links_foldl: "map_links (foldl add_link cm ls) = map_links cm \<union> set ls"
  by (induction ls arbitrary: cm) (auto simp: map_links_add_link)

lemma map_links_build:
  "map_links (build_canonical_map links rg) =
   {l \<in> set links. sublist (''('' @ rg @ '')'') l}"
proof -
  have "map_links (build_canonical_map links rg) =
        set (filter (\<lambda>link. str_contains (''('' @ rg @ '')'') link) links)"
    unfolding build_canonical_map_def Let_def map_links_foldl map_links_Nil by simp
  then show ?thesis by (simp only: set_filter str_contains_sublist)
qed

lemma best_choice_Some:
  "best_choice scorer q cs (Some (b, t)) = Some (c, s) \<Longrightarrow>
     ((c, s) = (b, t) \<or> (c \<in> set cs \<and> s = scorer q c)) \<and> t \<le> s \<and>
     (\<forall>c'\<in>set cs. scorer q c' \<le> s)"
proof (induction cs arbitrary: b t)
  case Nil
  then show ?case by simp
next
  case (Cons x xs)
  show ?case
  proof (cases "scorer q x > t")
    case True
    with Cons.prems have "best_choice scorer q xs (Some (x, scorer q x)) = Some (c, s)"
      by (simp add: Let_def)
    from Cons.IH [OF this] True show ?thesis by auto
  next
    case False
    with Cons.prems have "best_choice scorer q xs (Some (b, t)) = Some (c, s)"
      by (simp add: Let_def)
    from Cons.IH [OF this] False show ?thesis by auto
  qed
qed


lemma best_choice_start:
  "best_choice scorer q cs None = Some (c, s) \<Longrightarrow>
     c \<in> set cs \<and> s = scorer q c \<and> (\<forall>c'\<in>set cs. scorer q c' \<le> s)"
proof (cases cs)
  case Nil
  assume "best_choice scorer q cs None = Some (c, s)"
  with Nil show ?thesis by simp
next
  case (Cons x xs)
  assume "best_choice scorer q cs None = Some (c, s)"
  with Cons have "best_choice scorer q xs (Some (x, scorer q x)) = Some (c, s)"
    by (simp add: Let_def)
  from best_choice_Some [OF this] Cons show ?thesis by auto
qed

lemma extractOne_Some:
  assumes "extractOne scorer q cs cutoff = Some (c, s)"
  shows "c \<in> set cs \<and> s = scorer q c \<and> cutoff \<le> s \<and> (\<forall>c'\<in>set cs. scorer q c' \<le> s)"
proof -
  from assms have "best_choice scorer q cs None = Some (c, s)" and "cutoff \<le> s"
    by (auto simp: extractOne_def split: option.splits if_splits)
  with best_choice_start show ?thesis by blast
qed



lemma match_game_not_error: "match_game scorer cm game \<noteq> Inl err"
proof (cases "extractOne scorer game (map fst cm) 85")
  case None
  then show ?thesis by (simp add: match_game_def)
next
  case (Some p)
  obtain c s where p: "p = (c, s)" by (cases p)
  from extractOne_Some [OF Some [unfolded p]] have "c \<in> set (map fst cm)" by simp
  then have "map_of cm c \<noteq> None" by (simp add: map_of_eq_None_iff)
  then obtain vs where "map_of cm c = Some vs" by blast
  with Some p show ?thesis
    by (simp add: match_game_def split: option.split)
qed

lemma match_game_Some_link:
  assumes "match_game scorer cm game = Inr (Some link)"
  shows "link \<in> map_links cm"
proof -
  from assms obtain c s vs where ex: "extractOne scorer game (map fst cm) 85 = Some (c, s)"
    and look: "map_of cm c = Some vs" and sel: "select_best_version vs = Some link"
    by (auto simp: match_game_def split: option.splits if_splits)
  from look have mem: "(c, vs) \<in> set cm" by (rule map_of_SomeD)
  have "vs \<noteq> []" using sel by (auto simp: select_best_version_def)
  from select_best_version_in_set [OF this] sel have "link \<in> set vs" by auto
  with mem show ?thesis unfolding map_links_def by blast
qed

lemma match_game_Some_score:
  assumes "match_game scorer cm game = Inr (Some link)"
  shows "\<exists>c\<in>set (map fst cm). 85 \<le> scorer game c"
proof -
  from assms obtain c s where ex: "extractOne scorer game (map fst cm) 85 = Some (c, s)"
    by (auto simp: match_game_def split: option.splits if_splits)
  from extractOne_Some [OF ex] show ?thesis by blast
qed

lemma filter_loop_result:
  "\<exists>fl' mg'. filter_loop scorer cm games (fl, mg) = Inr (fl', mg') \<and>
     set fl' = set fl \<union> {l. \<exists>g\<in>set games. match_game scorer cm g = Inr (Some l)} \<and>
     mg' = mg \<union> {g \<in> set games. \<exists>l. match_game scorer cm g = Inr (Some l)}"
proof (induction games arbitrary: fl mg)
  case Nil
  show ?case by simp
next
  case (Cons g gs)
  show ?case
  proof (cases "match_game scorer cm g")
    case (Inl err)
    with match_game_not_error show ?thesis by blast
  next
    case (Inr r)
    show ?thesis
    proof (cases r)
      case None
      from Cons.IH [of fl mg] obtain fl' mg' where
        "filter_loop scorer cm gs (fl, mg) = Inr (fl', mg')"
        "set fl' = set fl \<union> {l. \<exists>g\<in>set gs. match_game scorer cm g = Inr (Some l)}"
        "mg' = mg \<union> {g \<in> set gs. \<exists>l. match_game scorer cm g = Inr (Some l)}"
        by blast
      with Inr None show ?thesis by auto
    next
      case (Some l)
      from Cons.IH [of "fl @ [l]" "insert g mg"] obtain fl' mg' where
        "filter_loop scorer cm gs (fl @ [l], insert g mg) = Inr (fl', mg')"
        "set fl' = set (fl @ [l]) \<union> {l. \<exists>g\<in>set gs. match_game scorer cm g = Inr (Some l)}"
        "mg' = insert g mg \<union> {g \<in> set gs. \<exists>l. match_game scorer cm g = Inr (Some l)}"
        by blast
      with Inr Some show ?thesis by auto
    qed
  qed
qed

lemma filter_links_result:
  assumes "set_listing list_of_set"
  shows "\<exists>out mg. filter_links scorer list_of_set links games rg = Inr (out, mg) \<and>
     distinct out \<and>
     set out = {l. \<exists>g\<in>set games.
                  match_game scorer (build_canonical_map links rg) g = Inr (Some l)} \<and>
     mg = {g \<in> set games. \<exists>l.
                  match_game scorer (build_canonical_map links rg) g = Inr (Some l)}"
proof -
  from filter_loop_result [of scorer "build_canonical_map links rg" games "[]" "{}"]
  obtain fl' mg' where
    loop: "filter_loop scorer (build_canonical_map links rg) games ([], {}) = Inr (fl', mg')"
    and fl: "set fl' = {l. \<exists>g\<in>set games.
                  match_game scorer (build_canonical_map links rg) g = Inr (Some l)}"
    and mg: "mg' = {g \<in> set games. \<exists>l.
                  match_game scorer (build_canonical_map links rg) g = Inr (Some l)}"
    by auto
  from assms have "distinct (list_of_set fl')" and "set (list_of_set fl') = set fl'"
    by (simp_all add: set_listing_def)
  with loop fl mg show ?thesis by (simp add: filter_links_def)
qed

section \<open>Claims about the classifier and the final link list\<close>

lemma set_listing_remdups: "set_listing remdups"
  by (simp add: set_listing_def)

lemma set_listing_rev_remdups: "set_listing (\<lambda>xs. rev (remdups xs))"
  by (simp add: set_listing_def)

lemma filter_links_scenario:
  "filter_links example_scorer remdups
     [''http://x/A (USA).zip'', ''http://x/A (Europe).zip'', ''http://x/A (USA) (Beta).zip'']
     [''A''] ''USA'' = Inr ([''http://x/A (USA).zip''], {''A''})"
  by code_simp

lemma filter_links_shared_link:
  "filter_links example_scorer remdups [''http://x/A (USA).zip''] [''A'', ''A2''] ''USA'' =
     Inr ([''http://x/A (USA).zip''], {''A2'', ''A''})"
  by code_simp

text \<open>
  C2, as the code has it.  The region filter tests the whole link, not its filename: a
  link whose directory contains \<^verbatim>\<open>(USA)\<close> is kept, stored in the canonical map and
  selected, though its filename has no such tag.
\<close>

theorem region_tag_not_in_filename:
  "build_canonical_map [''http://x/(USA)/A (Europe).zip''] ''USA'' =
     [(''A'', [''http://x/(USA)/A (Europe).zip''])] \<and>
   filter_links example_scorer remdups [''http://x/(USA)/A (Europe).zip''] [''A''] ''USA'' =
     Inr ([''http://x/(USA)/A (Europe).zip''], {''A''}) \<and>
   last (split_on CHR ''/'' ''http://x/(USA)/A (Europe).zip'') = ''A (Europe).zip'' \<and>
   \<not> str_contains ''(USA)'' ''A (Europe).zip''"
  by code_simp

text \<open>
  C2, amended.  The links stored in the canonical map are exactly the given links
  that contain \<^verbatim>\<open>(region)\<close>, parentheses included, somewhere in the link; so every link
  of the final list of \<^verbatim>\<open>filter_links\<close> is a given link containing that text.
\<close>

theorem region_tag_in_link:
  "map_links (build_canonical_map links rg) = {link \<in> set links. sublist (''('' @ rg @ '')'') link} \<and>
   (set_listing list_of_set \<longrightarrow>
      (\<exists>out mg. filter_links scorer list_of_set links games rg = Inr (out, mg) \<and>
         (\<forall>link\<in>set out. link \<in> set links \<and> sublist (''('' @ rg @ '')'') link)))"
proof (intro conjI impI)
  show "map_links (build_canonical_map links rg) =
      {link \<in> set links. sublist (''('' @ rg @ '')'') link}"
    by (rule map_links_build)
next
  assume "set_listing list_of_set"
  from filter_links_result [OF this, of scorer links games rg]
  obtain out mg where res: "filter_links scorer list_of_set links games rg = Inr (out, mg)"
    and out: "set out = {l. \<exists>g\<in>set games.
        match_game scorer (build_canonical_map links rg) g = Inr (Some l)}"
    by blast
  have "\<forall>link\<in>set out. link \<in> set links \<and> sublist (''('' @ rg @ '')'') link"
  proof
    fix link assume "link \<in> set out"
    with out obtain g where "match_game scorer (build_canonical_map links rg) g = Inr (Some link)"
      by blast
    then have "link \<in> map_links (build_canonical_map links rg)" by (rule match_game_Some_link)
    then show "link \<in> set links \<and> sublist (''('' @ rg @ '')'') link"
      by (simp only: map_links_build) simp
  qed
  with res show "\<exists>out mg. filter_links scorer list_of_set links games rg = Inr (out, mg) \<and>
         (\<forall>link\<in>set out. link \<in> set links \<and> sublist (''('' @ rg @ '')'') link)"
    by blast
qed

theorem region_tag_in_link_witness:
  "set_listing remdups \<and>
   (\<exists>out mg. filter_links example_scorer remdups
        [''http://x/A (USA).zip'', ''http://x/A (Europe).zip'', ''http://x/A (USA) (Beta).zip'']
        [''A''] ''USA'' = Inr (out, mg) \<and>
      (\<forall>link\<in>set out.
          link \<in> set [''http://x/A (USA).zip'', ''http://x/A (Europe).zip'',
                       ''http://x/A (USA) (Beta).zip''] \<and>
          sublist (''('' @ ''USA'' @ '')'') link))"
  using region_tag_in_link [of
      "[''http://x/A (USA).zip'', ''http://x/A (Europe).zip'', ''http://x/A (USA) (Beta).zip'']"
      "''USA''" remdups example_scorer "[''A'']"]
    set_listing_remdups
  by blast

text \<open>
  C7. The list \<^verbatim>\<open>filter_links\<close> returns has no duplicates, whichever titles resolve to
  the same link: its elements are the links selected for the requested titles, each
  once.  This holds for every listing of a set, and no order is promised.
\<close>

theorem filter_links_no_duplicates:
  assumes "set_listing list_of_set"
  shows "\<exists>out mg. filter_links scorer list_of_set links games rg = Inr (out, mg) \<and>
     distinct out \<and>
     set out = {l. \<exists>g\<in>set games.
                  match_game scorer (build_canonical_map links rg) g = Inr (Some l)}"
  using filter_links_result [OF assms, of scorer links games rg] by blast

text \<open>Two requested titles that resolve to one link: the link is listed once.\<close>

theorem filter_links_no_duplicates_witness:
  "set_listing remdups \<and>
   filter_links example_scorer remdups [''http://x/A (USA).zip''] [''A'', ''A2''] ''USA'' =
     Inr ([''http://x/A (USA).zip''], {''A2'', ''A''}) \<and>
   match_game example_scorer (build_canonical_map [''http://x/A (USA).zip''] ''USA'') ''A'' =
     Inr (Some ''http://x/A (USA).zip'') \<and>
   match_game example_scorer (build_canonical_map [''http://x/A (USA).zip''] ''USA'') ''A2'' =
     Inr (Some ''http://x/A (USA).zip'') \<and>
   distinct [''http://x/A (USA).zip'']"
proof -
  from filter_links_no_duplicates [OF set_listing_remdups, of example_scorer
      "[''http://x/A (USA).zip'']" "[''A'', ''A2'']" "''USA''"]
  obtain out mg where
    "filter_links example_scorer remdups [''http://x/A (USA).zip''] [''A'', ''A2''] ''USA'' =
       Inr (out, mg)" and d: "distinct out"
    by blast
  then have "out = [''http://x/A (USA).zip'']" by (simp add: filter_links_shared_link)
  with d have "distinct [''http://x/A (USA).zip'']" by simp
  moreover have
    "match_game example_scorer (build_canonical_map [''http://x/A (USA).zip''] ''USA'') ''A'' =
       Inr (Some ''http://x/A (USA).zip'')"
    "match_game example_scorer (build_canonical_map [''http://x/A (USA).zip''] ''USA'') ''A2'' =
       Inr (Some ''http://x/A (USA).zip'')"
    by code_simp+
  ultimately show ?thesis using set_listing_remdups filter_links_shared_link by simp
qed

text \<open>Two listings of a set, two orders of the final list.\<close>

lemma filter_links_order_not_fixed:
  "filter_links example_scorer remdups
     [''http://x/A (USA).zip'', ''http://x/B (USA).zip''] [''A'', ''B''] ''USA'' =
     Inr ([''http://x/A (USA).zip'', ''http://x/B (USA).zip''], {''B'', ''A''})"
  "filter_links example_scorer (\<lambda>xs. rev (remdups xs))
     [''http://x/A (USA).zip'', ''http://x/B (USA).zip''] [''A'', ''B''] ''USA'' =
     Inr ([''http://x/B (USA).zip'', ''http://x/A (USA).zip''], {''B'', ''A''})"
  by code_simp+

section \<open>The trace of the download command\<close>

lemma run_checks_passed:
  "which_aria2c e \<Longrightarrow> which_unzip e \<Longrightarrow> run_checks e = (checks_passed, Returned)"
  by (simp add: run_checks_def checks_passed_def Let_def)

lemma run_checks_no_downloader: "\<not> list_ex is_downloader_call (fst (run_checks e))"
  by (simp add: run_checks_def Let_def)


lemma download_command_checks_failed:
  assumes "snd (run_checks e) \<noteq> Returned"
  shows "download_command scorer list_of_set a e =
     (Mkdir (output_dir a) # fst (run_checks e), snd (run_checks e))"
proof -
  obtain checks res where "run_checks e = (checks, res)" by (cases "run_checks e")
  with assms show ?thesis by (simp add: download_command_def Let_def)
qed

lemma download_command_no_links:
  assumes "snd (run_checks e) = Returned" and "get_links_result e = []"
  shows "download_command scorer list_of_set a e =
     (Mkdir (output_dir a) # fst (run_checks e) @
      [Print ''[bold green]Starting ROM download process...[/bold green]'', GetLinks (url a),
       Print ''[bold red]No links found. Exiting.[/bold red]''], Returned)"
proof -
  obtain checks res where "run_checks e = (checks, res)" by (cases "run_checks e")
  with assms show ?thesis by (simp add: download_command_def Let_def)
qed

lemma download_command_no_games:
  assumes "snd (run_checks e) = Returned" and "get_links_result e \<noteq> []"
    and "read_games_list_result e = []"
  shows "download_command scorer list_of_set a e =
     (Mkdir (output_dir a) # fst (run_checks e) @
      [Print ''[bold green]Starting ROM download process...[/bold green]'', GetLinks (url a),
       ReadGamesList (games_list a),
       Print ''[bold red]No games found in the list. Exiting.[/bold red]''], Returned)"
proof -
  obtain checks res where "run_checks e = (checks, res)" by (cases "run_checks e")
  with assms show ?thesis by (simp add: download_command_def Let_def)
qed

lemma download_command_no_match:
  assumes "snd (run_checks e) = Returned" and "get_links_result e \<noteq> []"
    and "read_games_list_result e \<noteq> []"
    and "filter_links scorer list_of_set (get_links_result e) (read_games_list_result e) (region a) =
           Inr ([], mg)"
  shows "download_command scorer list_of_set a e =
     (Mkdir (output_dir a) # fst (run_checks e) @
      [Print ''[bold green]Starting ROM download process...[/bold green]'', GetLinks (url a),
       ReadGamesList (games_list a),
       Print (''[bold yellow]No matching ROMs found for the given '' @
              ''criteria.[/bold yellow]'')], Returned)"
proof -
  obtain checks res where "run_checks e = (checks, res)" by (cases "run_checks e")
  with assms show ?thesis by (simp add: download_command_def Let_def)
qed

lemma download_command_matched:
  assumes "snd (run_checks e) = Returned" and "get_links_result e \<noteq> []"
    and "read_games_list_result e \<noteq> []"
    and "filter_links scorer list_of_set (get_links_result e) (read_games_list_result e) (region a) =
           Inr (ml, mg)"
    and "ml \<noteq> []"
  shows "download_command scorer list_of_set a e =
     (Mkdir (output_dir a) # fst (run_checks e) @
      [Print ''[bold green]Starting ROM download process...[/bold green]'', GetLinks (url a),
       ReadGamesList (games_list a),
       Print (''Found '' @ str_of_nat (length ml) @ '' matching ROMs.'')] @
      report_missing (read_games_list_result e) mg @
      write_links_to_file ml (aria2c_input_file a) @
      download_roms e (aria2c_input_file a) (output_dir a) @
      (if \<not> no_unzip a then [UnzipAndCleanup (output_dir a)] else []), Returned)"
proof -
  obtain checks res where "run_checks e = (checks, res)" by (cases "run_checks e")
  with assms show ?thesis by (simp add: download_command_def Let_def)
qed








lemma no_downloader_report_missing: "\<not> list_ex is_downloader_call (report_missing games mg)"
  by (simp add: report_missing_def Let_def list_ex_iff) auto

lemma filter_links_empty_iff:
  assumes "set_listing list_of_set"
    and "filter_links scorer list_of_set links games rg = Inr (ml, mg)"
  shows "ml = [] \<longleftrightarrow> mg = {}"
proof -
  from filter_links_result [OF assms(1), of scorer links games rg] assms(2)
  have out: "set ml = {l. \<exists>g\<in>set games.
        match_game scorer (build_canonical_map links rg) g = Inr (Some l)}"
    and mg: "mg = {g \<in> set games. \<exists>l.
        match_game scorer (build_canonical_map links rg) g = Inr (Some l)}"
    by auto
  have "ml = [] \<longleftrightarrow> set ml = {}" by simp
  also have "\<dots> \<longleftrightarrow> mg = {}" unfolding out mg by blast
  finally show ?thesis .
qed


lemma download_command_no_downloader_unless_matched:
  assumes "get_links_result e = [] \<or> read_games_list_result e = [] \<or>
    (\<exists>mg. filter_links scorer list_of_set (get_links_result e) (read_games_list_result e)
        (region a) = Inr ([], mg))"
  shows "\<not> list_ex is_downloader_call (fst (download_command scorer list_of_set a e))"
proof (cases "snd (run_checks e) = Returned")
  case False
  then show ?thesis
    by (simp add: download_command_checks_failed run_checks_no_downloader)
next
  case ok: True
  show ?thesis
  proof (cases "get_links_result e = []")
    case True
    with ok show ?thesis by (simp add: download_command_no_links run_checks_no_downloader)
  next
    case links: False
    show ?thesis
    proof (cases "read_games_list_result e = []")
      case True
      with ok links show ?thesis
        by (simp add: download_command_no_games run_checks_no_downloader)
    next
      case games: False
      with links assms obtain mg where
        "filter_links scorer list_of_set (get_links_result e) (read_games_list_result e)
           (region a) = Inr ([], mg)" by blast
      with ok links games show ?thesis
        by (simp add: download_command_no_match run_checks_no_downloader)
    qed
  qed
qed

lemma download_command_invokes_when_matched:
  assumes "which_aria2c e" and "which_unzip e" and "get_links_result e \<noteq> []"
    and "read_games_list_result e \<noteq> []"
    and "filter_links scorer list_of_set (get_links_result e) (read_games_list_result e) (region a) =
           Inr (ml, mg)"
    and "ml \<noteq> []"
  shows "list_ex is_downloader_call (fst (download_command scorer list_of_set a e))"
proof -
  from assms(1,2) have "snd (run_checks e) = Returned" by (simp add: run_checks_passed)
  from download_command_matched [OF this assms(3-6)]
  show ?thesis by (simp add: download_roms_def Let_def)
qed

section \<open>Claims about the download command\<close>

lemma download_command_examples:
  "filter_links example_scorer remdups [''http://x/A (USA).zip''] [''Q''] ''USA'' = Inr ([], {})"
  "list_ex is_downloader_call
     (fst (download_command example_scorer remdups example_args
        (example_env [''http://x/A (USA).zip''] [''A''])))"
  "reported_unmatched
     (fst (download_command example_scorer remdups example_args
        (example_env [''http://x/A (USA).zip''] [''Q'', ''B'', ''A'']))) = [''B'', ''Q'']"
  "filter_links example_scorer remdups [''http://x/A (USA).zip''] [''Q'', ''B'', ''A''] ''USA'' =
     Inr ([''http://x/A (USA).zip''], {''A''})"
  by code_simp+

text \<open>
  C8. The command stops short of the downloader: if the link discovery returns no
  link, or the list of requested titles is empty, or no requested title matches, the
  trace of \<^verbatim>\<open>download_command\<close> runs no \<^verbatim>\<open>aria2c\<close>; and when the pre-flight checks have
  passed, the command returns, the message that reports the case being the last thing
  it does.
\<close>

theorem download_command_short_circuits:
  assumes listing: "set_listing list_of_set"
  shows
  "(get_links_result e = [] \<longrightarrow>
      \<not> list_ex is_downloader_call (fst (download_command scorer list_of_set a e)) \<and>
      (which_aria2c e \<and> which_unzip e \<longrightarrow>
         snd (download_command scorer list_of_set a e) = Returned \<and>
         last (fst (download_command scorer list_of_set a e)) =
           Print ''[bold red]No links found. Exiting.[/bold red]'')) \<and>
   (read_games_list_result e = [] \<longrightarrow>
      \<not> list_ex is_downloader_call (fst (download_command scorer list_of_set a e)) \<and>
      (which_aria2c e \<and> which_unzip e \<and> get_links_result e \<noteq> [] \<longrightarrow>
         snd (download_command scorer list_of_set a e) = Returned \<and>
         last (fst (download_command scorer list_of_set a e)) =
           Print ''[bold red]No games found in the list. Exiting.[/bold red]'')) \<and>
   (\<forall>ml. filter_links scorer list_of_set (get_links_result e) (read_games_list_result e)
           (region a) = Inr (ml, {}) \<longrightarrow>
      \<not> list_ex is_downloader_call (fst (download_command scorer list_of_set a e)) \<and>
      (which_aria2c e \<and> which_unzip e \<and> get_links_result e \<noteq> [] \<and>
       read_games_list_result e \<noteq> [] \<longrightarrow>
         snd (download_command scorer list_of_set a e) = Returned \<and>
         last (fst (download_command scorer list_of_set a e)) =
           Print ''[bold yellow]No matching ROMs found for the given criteria.[/bold yellow]''))"
proof (intro conjI impI allI)
  assume "get_links_result e = []"
  then show "\<not> list_ex is_downloader_call (fst (download_command scorer list_of_set a e))"
    by (intro download_command_no_downloader_unless_matched) simp
next
  assume l: "get_links_result e = []" and "which_aria2c e \<and> which_unzip e"
  then have ok: "snd (run_checks e) = Returned" by (simp add: run_checks_passed)
  from download_command_no_links [OF ok l]
  show "snd (download_command scorer list_of_set a e) = Returned"
    and "last (fst (download_command scorer list_of_set a e)) =
           Print ''[bold red]No links found. Exiting.[/bold red]''"
    by simp_all
next
  assume "read_games_list_result e = []"
  then show "\<not> list_ex is_downloader_call (fst (download_command scorer list_of_set a e))"
    by (intro download_command_no_downloader_unless_matched) simp
next
  assume g: "read_games_list_result e = []"
    and c: "which_aria2c e \<and> which_unzip e \<and> get_links_result e \<noteq> []"
  then have ok: "snd (run_checks e) = Returned" by (simp add: run_checks_passed)
  from c have l: "get_links_result e \<noteq> []" by simp
  from download_command_no_games [OF ok l g]
  show "snd (download_command scorer list_of_set a e) = Returned"
    and "last (fst (download_command scorer list_of_set a e)) =
           Print ''[bold red]No games found in the list. Exiting.[/bold red]''"
    by simp_all
next
  fix ml
  assume res: "filter_links scorer list_of_set (get_links_result e) (read_games_list_result e)
           (region a) = Inr (ml, {})"
  from filter_links_empty_iff [OF listing res] have "ml = []" by simp
  with res show "\<not> list_ex is_downloader_call (fst (download_command scorer list_of_set a e))"
    by (intro download_command_no_downloader_unless_matched) blast
next
  fix ml
  assume res: "filter_links scorer list_of_set (get_links_result e) (read_games_list_result e)
           (region a) = Inr (ml, {})"
    and c: "which_aria2c e \<and> which_unzip e \<and> get_links_result e \<noteq> [] \<and>
       read_games_list_result e \<noteq> []"
  from filter_links_empty_iff [OF listing res] have "ml = []" by simp
  with res have res': "filter_links scorer list_of_set (get_links_result e)
      (read_games_list_result e) (region a) = Inr ([], {})" by simp
  from c have ok: "snd (run_checks e) = Returned" by (simp add: run_checks_passed)
  from c have l: "get_links_result e \<noteq> []" and g: "read_games_list_result e \<noteq> []" by simp_all
  from download_command_no_match [OF ok l g res']
  show "snd (download_command scorer list_of_set a e) = Returned"
    and "last (fst (download_command scorer list_of_set a e)) =
           Print ''[bold yellow]No matching ROMs found for the given criteria.[/bold yellow]''"
    by simp_all
qed

text \<open>The three cases on concrete runs.\<close>

theorem download_command_short_circuits_witness:
  "set_listing remdups \<and>
   get_links_result (example_env [] [''A'']) = [] \<and>
   \<not> list_ex is_downloader_call
       (fst (download_command example_scorer remdups example_args (example_env [] [''A'']))) \<and>
   read_games_list_result (example_env [''http://x/A (USA).zip''] []) = [] \<and>
   \<not> list_ex is_downloader_call
       (fst (download_command example_scorer remdups example_args
          (example_env [''http://x/A (USA).zip''] []))) \<and>
   filter_links example_scorer remdups [''http://x/A (USA).zip''] [''Q''] ''USA'' = Inr ([], {}) \<and>
   \<not> list_ex is_downloader_call
       (fst (download_command example_scorer remdups example_args
          (example_env [''http://x/A (USA).zip''] [''Q''])))"
proof -
  have 1: "get_links_result (example_env [] [''A'']) = []" by (simp add: example_env_def)
  have 2: "read_games_list_result (example_env [''http://x/A (USA).zip''] []) = []"
    by (simp add: example_env_def)
  have 3: "filter_links example_scorer remdups
      (get_links_result (example_env [''http://x/A (USA).zip''] [''Q'']))
      (read_games_list_result (example_env [''http://x/A (USA).zip''] [''Q'']))
      (region example_args) = Inr ([], {})"
    by (simp add: example_env_def example_args_def download_command_examples(1))
  note t = download_command_short_circuits [OF set_listing_remdups]
  from t [of "example_env [] [''A'']" example_scorer example_args] 1
  have a: "\<not> list_ex is_downloader_call
       (fst (download_command example_scorer remdups example_args (example_env [] [''A''])))"
    by blast
  from t [of "example_env [''http://x/A (USA).zip''] []" example_scorer example_args] 2
  have b: "\<not> list_ex is_downloader_call
       (fst (download_command example_scorer remdups example_args
          (example_env [''http://x/A (USA).zip''] [])))"
    by blast
  from t [of "example_env [''http://x/A (USA).zip''] [''Q'']" example_scorer example_args] 3
  have c: "\<not> list_ex is_downloader_call
       (fst (download_command example_scorer remdups example_args
          (example_env [''http://x/A (USA).zip''] [''Q''])))"
    by blast
  from 1 2 a b c set_listing_remdups download_command_examples(1) show ?thesis by blast
qed




section \<open>Claims about the rename command\<close>










end
